theory Spec2Isabelle
  imports Main "HOL-Library.AList"
begin

section \<open>The command registry of the editor core (CommandsExtension)\<close>

text \<open>
  The source is the class \<open>CommandsExtension\<close>: its two lifecycle methods \<open>onCreate\<close> and
  \<open>onView\<close>, the built-in command \<open>customTransaction\<close> and the two private wrappers
  \<open>unchainedFactory\<close> and \<open>chainedFactory\<close>. Everything the code does beyond returning a
  value is explicit here: side effects on the editing surface are changes of a \<open>world\<close>
  record that is passed along, and a \<open>throw\<close> is the left injection of a sum.
\<close>

subsection \<open>Errors\<close>

datatype ErrorConstant = DUPLICATE_COMMAND_NAMES | COMMANDS_CALLED_IN_OUTER_SCOPE

text \<open>
  An error raised by \<open>invariant\<close> carries the optional \<open>code\<close> and \<open>message\<close> of the
  options object it was given. A call of a property that does not exist is a \<open>TypeError\<close>.
\<close>

datatype error =
    RemirrorError (code: "ErrorConstant option") (message: "string option")
  | TypeError

text \<open>
  Modelled from the spec: \<open>invariant\<close> of the package core-helpers is imported but not
  part of the sources at hand. Section 7 of the specification calls its failures immediate,
  fail-fast invariant violations: when the condition is false the error described by the
  options is raised, otherwise nothing happens.
\<close>

definition invariant :: "bool \<Rightarrow> ErrorConstant option \<Rightarrow> string option \<Rightarrow> error + unit" where
  "invariant condition c m = (if condition then Inr () else Inl (RemirrorError c m))"

text \<open>
  Modelled from the spec: \<open>throwIfNameNotUnique\<close> of \<open>../helpers\<close> is imported but not part
  of the sources at hand. Section 4.1 of the specification gives its contract:
  \<open>register(name)\<close> is ok, or fails when \<open>name\<close> was already registered in the current
  build pass; the seen-name set is the one passed in, which a successful call extends.
  The text of the message is not specified.
\<close>

definition throwIfNameNotUnique ::
  "string \<Rightarrow> string set \<Rightarrow> ErrorConstant \<Rightarrow> error + string set" where
  "throwIfNameNotUnique name set' c =
     (if name \<in> set' then Inl (RemirrorError (Some c) None) else Inr (insert name set'))"

text \<open>The names that are forbidden from being used as a command name.\<close>

definition forbiddenNames :: "string set" where
  "forbiddenNames = {''run'', ''chain''}"

subsection \<open>The editing surface\<close>

text \<open>
  A change-set (``transaction'') is a mutable object: it has an identity, a natural number
  here, and a content, the list of edits added to it so far, kept in a store indexed by
  identity. Two change-sets are the same object exactly when their identities are equal.
\<close>

type_synonym Transaction = nat

type_synonym edit = string

record EditorState =
  doc :: "edit list"
  tr :: Transaction

text \<open>
  The world holds the store of change-sets, the current state of the view, and a record of
  the side effects of the view: how often it was focused and which change-sets were
  committed, each with the content it had when it was committed.
\<close>

record world =
  heap :: "Transaction \<Rightarrow> edit list"
  view_state :: EditorState
  focus_calls :: nat
  commits :: "(Transaction \<times> edit list) list"
  next_tr :: Transaction

type_synonym 'r effect = "world \<Rightarrow> (error + 'r) \<times> world"

type_synonym DispatchFunction = "Transaction \<Rightarrow> unit effect"

datatype EditorView = EditorView

text \<open>
  Modelled from the spec: the editing surface is an external collaborator (section 6). It
  exposes its current state, which includes the live pending change-set, a focus side
  effect, and a commit operation accepting a change-set. Committing applies the edits of the
  change-set to the document; the view then shows a new state whose pending change-set is a
  new, empty one. A state is a read-only snapshot: \<open>state.tr\<close> read twice on the same
  state is the same change-set.
\<close>

definition view_focus :: "world \<Rightarrow> world" where
  "view_focus w = w\<lparr>focus_calls := Suc (focus_calls w)\<rparr>"

definition view_dispatch :: DispatchFunction where
  "view_dispatch transaction w =
     (Inr (),
      w\<lparr>commits := commits w @ [(transaction, heap w transaction)],
        view_state := \<lparr>doc = doc (view_state w) @ heap w transaction, tr = next_tr w\<rparr>,
        heap := (heap w)(next_tr w := []),
        next_tr := Suc (next_tr w)\<rparr>)"

text \<open>Adding edits to a change-set in place: the object stays the same, its content grows.\<close>

definition add_edits :: "Transaction \<Rightarrow> edit list \<Rightarrow> world \<Rightarrow> world" where
  "add_edits t es w = w\<lparr>heap := (heap w)(t := heap w t @ es)\<rparr>"

subsection \<open>Commands\<close>

text \<open>
  A command function receives \<open>{ state, dispatch, view }\<close>, where \<open>dispatch\<close> may be
  absent, and returns a boolean. It is a black box to the registry: it may change the world
  and it may raise. An extension command function makes a command function from its
  arguments; the registry always calls \<open>command(...args)(context)\<close> in one go, and
  making the command function has no side effect of its own (section 3 of the
  specification).
\<close>

record CommandContext =
  state :: EditorState
  dispatch :: "DispatchFunction option"
  view :: EditorView

type_synonym CommandFunction = "CommandContext \<Rightarrow> bool effect"

type_synonym 'a ExtensionCommandFunction = "'a \<Rightarrow> CommandFunction"

text \<open>
  \<open>createCommands\<close> of the extension itself: the built-in command. Its argument is the
  callback \<open>transactionUpdater\<close>, which mutates the transaction and returns nothing.
\<close>

definition customTransaction :: "(Transaction \<Rightarrow> world \<Rightarrow> world) ExtensionCommandFunction" where
  "customTransaction transactionUpdater ctx w =
     (case dispatch ctx of
        Some dispatch' \<Rightarrow>
          (case dispatch' (tr (state ctx)) (transactionUpdater (tr (state ctx)) w) of
             (Inl e, w') \<Rightarrow> (Inl e, w')
           | (Inr u, w') \<Rightarrow> (Inr True, w'))
      | None \<Rightarrow> (Inr True, w))"

definition createCommands_CommandsExtension ::
  "(string \<times> (Transaction \<Rightarrow> world \<Rightarrow> world) ExtensionCommandFunction) list" where
  "createCommands_CommandsExtension = [(''customTransaction'', customTransaction)]"

subsection \<open>The two wrappers\<close>

text \<open>
  \<open>unchainedFactory\<close>: \<open>shouldDispatch\<close> is optional and defaults to true. When it is
  true the view's own dispatch is handed to the command and the view is focused before the
  state is read; otherwise the command gets no dispatch.
\<close>

definition unchainedFactory ::
  "'a ExtensionCommandFunction \<Rightarrow> bool option \<Rightarrow> 'a \<Rightarrow> bool effect" where
  "unchainedFactory command shouldDispatch' args w =
     (let shouldDispatch = (case shouldDispatch' of None \<Rightarrow> True | Some b \<Rightarrow> b)
      in if shouldDispatch
         then (let w1 = view_focus w
               in command args
                    \<lparr>state = view_state w1, dispatch = Some view_dispatch, view = EditorView\<rparr> w1)
         else command args \<lparr>state = view_state w, dispatch = None, view = EditorView\<rparr> w)"

text \<open>
  The \<open>dispatch\<close> closure of \<open>chainedFactory\<close>: ``Dispatch should do nothing here except
  check transaction''. It compares the identity of the transaction it is given with the one
  of the state captured when the step was called.
\<close>

definition chained_dispatch :: "EditorState \<Rightarrow> DispatchFunction" where
  "chained_dispatch state' transaction w =
     (invariant (transaction = tr state') None
        (Some ''Chaining currently only supports methods which do not clone the transaction object.''),
      w)"

text \<open>
  \<open>chainedFactory\<close>: \<open>chained\<close> is the chain object itself, of which the closure keeps a
  reference; the reference is the identity of the object. The boolean of the command is
  dropped and the reference is returned.
\<close>

type_synonym ChainRef = nat

definition chainedFactory ::
  "'a ExtensionCommandFunction \<Rightarrow> ChainRef \<Rightarrow> 'a \<Rightarrow> ChainRef effect" where
  "chainedFactory command chained' spread w =
     (let state' = view_state w
      in case command spread
                \<lparr>state = state', dispatch = Some (chained_dispatch state'), view = EditorView\<rparr> w of
           (Inl e, w') \<Rightarrow> (Inl e, w')
         | (Inr b, w') \<Rightarrow> (Inr chained', w'))"

subsection \<open>Building the registry: \<open>onView\<close>\<close>

text \<open>
  An entry of \<open>unchained\<close> is \<open>{ name, command, isEnabled }\<close>, in this order. An entry of
  \<open>commands\<close> is the function \<open>command\<close> with \<open>isEnabled\<close> attached as a property.
\<close>

datatype 'a UnchainedEntry = UnchainedEntry string "'a \<Rightarrow> bool effect" "'a \<Rightarrow> bool effect"

record 'a CommandShape =
  call :: "'a \<Rightarrow> bool effect"
  isEnabled :: "'a \<Rightarrow> bool effect"

text \<open>
  The chain object: its identity, one method for each command name, and \<open>run\<close>, which is
  attached last. No method is called \<open>run\<close>, since the name is forbidden, so the methods
  and \<open>run\<close> are kept apart. Objects are association lists: assigning to a new key adds
  the entry at the end, assigning to an old key replaces its value.
\<close>

record 'a Chained =
  self :: ChainRef
  methods :: "(string \<times> ('a \<Rightarrow> ChainRef effect)) list"
  run :: "unit effect option"

record 'a Extension =
  name :: string
  createCommands :: "(string \<times> 'a ExtensionCommandFunction) list option"

text \<open>The four locals of \<open>onView\<close> that its two handlers share.\<close>

record 'a Scope =
  commands :: "(string \<times> 'a CommandShape) list"
  names :: "string set"
  chained :: "'a Chained"
  unchained :: "(string \<times> 'a UnchainedEntry) list"

definition onView :: "ChainRef \<Rightarrow> 'a Scope" where
  "onView fresh =
     \<lparr>commands = [], names = {},
      chained = \<lparr>self = fresh, methods = [], run = None\<rparr>,
      unchained = []\<rparr>"

text \<open>The loop over \<open>entries(extensionCommands)\<close> in \<open>forEachExtension\<close>.\<close>

fun forEachCommand ::
  "string \<Rightarrow> (string \<times> 'a ExtensionCommandFunction) list \<Rightarrow> 'a Scope \<Rightarrow> error + 'a Scope" where
  "forEachCommand extension_name [] s = Inr s"
| "forEachCommand extension_name ((name', command) # rest) s =
     (case throwIfNameNotUnique name' (names s) DUPLICATE_COMMAND_NAMES of
        Inl e \<Rightarrow> Inl e
      | Inr names' \<Rightarrow>
          (case invariant (name' \<notin> forbiddenNames) (Some DUPLICATE_COMMAND_NAMES)
                  (Some ''The command name you chose is forbidden.'') of
             Inl e \<Rightarrow> Inl e
           | Inr u \<Rightarrow>
               forEachCommand extension_name rest
                 (s\<lparr>names := names',
                    unchained :=
                      AList.update name'
                        (UnchainedEntry extension_name
                           (unchainedFactory command None)
                           (unchainedFactory command (Some False)))
                        (unchained s),
                    chained :=
                      (chained s)\<lparr>methods :=
                        AList.update name' (chainedFactory command (self (chained s)))
                          (methods (chained s))\<rparr>\<rparr>)))"

definition forEachExtension :: "'a Extension \<Rightarrow> 'a Scope \<Rightarrow> error + 'a Scope" where
  "forEachExtension extension s =
     (case createCommands extension of
        None \<Rightarrow> Inr s
      | Some extensionCommands \<Rightarrow> forEachCommand (name extension) extensionCommands s)"

text \<open>
  The loop over \<open>entries(unchained)\<close> in \<open>afterExtensionLoop\<close> runs \<open>attach\<close> on
  each entry. The store of the manager, with the two keys \<open>commands\<close> and \<open>chain\<close> that
  \<open>setStoreKey\<close> writes and \<open>getStoreKey\<close> reads. A key that was never set is undefined.
\<close>

record 'a ManagerStore =
  commands_key :: "(string \<times> 'a CommandShape) list option"
  chain_key :: "'a Chained option"

fun attach :: "string \<times> 'a UnchainedEntry \<Rightarrow>
    (string \<times> 'a CommandShape) list \<Rightarrow> (string \<times> 'a CommandShape) list" where
  "attach (commandName, UnchainedEntry n command isEnabled') cs =
     AList.update commandName \<lparr>call = command, isEnabled = isEnabled'\<rparr> cs"

text \<open>\<open>chained.run = () => view.dispatch(view.state.tr)\<close>\<close>

definition chained_run :: "EditorView \<Rightarrow> unit effect" where
  "chained_run view' w = view_dispatch (tr (view_state w)) w"

definition afterExtensionLoop :: "EditorView \<Rightarrow> 'a Scope \<Rightarrow> 'a ManagerStore \<Rightarrow> 'a ManagerStore" where
  "afterExtensionLoop view' s store =
     (let commands' = fold attach (unchained s) (commands s);
          chained' = (chained s)\<lparr>run := Some (chained_run view')\<rparr>
      in store\<lparr>commands_key := Some commands', chain_key := Some chained'\<rparr>)"

text \<open>
  Modelled from the spec: the host scheduler is not part of the sources at hand. In the
  view-ready phase (sections 4.4 and 6) it calls \<open>onView\<close> once, then the visit hook for
  each extension in the supplied order, then the finishing hook once. An error raised by a
  hook ends the phase there, so that the finishing hook is not reached.
\<close>

fun visit_extensions :: "'a Extension list \<Rightarrow> 'a Scope \<Rightarrow> error + 'a Scope" where
  "visit_extensions [] s = Inr s"
| "visit_extensions (extension # rest) s =
     (case forEachExtension extension s of
        Inl e \<Rightarrow> Inl e
      | Inr s' \<Rightarrow> visit_extensions rest s')"

definition view_ready ::
  "ChainRef \<Rightarrow> 'a Extension list \<Rightarrow> 'a ManagerStore \<Rightarrow> (error + unit) \<times> 'a ManagerStore" where
  "view_ready fresh extensions store =
     (case visit_extensions extensions (onView fresh) of
        Inl e \<Rightarrow> (Inl e, store)
      | Inr s \<Rightarrow> (Inr (), afterExtensionLoop EditorView s store))"

subsection \<open>The accessors published by \<open>onCreate\<close>\<close>

definition getCommands :: "'a ManagerStore \<Rightarrow> error + (string \<times> 'a CommandShape) list" where
  "getCommands store =
     (let commands' = commands_key store
      in case invariant (commands' \<noteq> None) (Some COMMANDS_CALLED_IN_OUTER_SCOPE) None of
           Inl e \<Rightarrow> Inl e
         | Inr u \<Rightarrow> (case commands' of Some c \<Rightarrow> Inr c | None \<Rightarrow> Inl TypeError))"

definition getChain :: "'a ManagerStore \<Rightarrow> error + 'a Chained" where
  "getChain store =
     (let chain' = chain_key store
      in case invariant (chain' \<noteq> None) (Some COMMANDS_CALLED_IN_OUTER_SCOPE) None of
           Inl e \<Rightarrow> Inl e
         | Inr u \<Rightarrow> (case chain' of Some c \<Rightarrow> Inr c | None \<Rightarrow> Inl TypeError))"

subsection \<open>Notions used in the statements\<close>

text \<open>
  What an extension contributes: the entries of the object its \<open>createCommands\<close> returns,
  and nothing when it has no \<open>createCommands\<close>. The contributions of a list of extensions
  are taken in the order of the list.
\<close>

definition commands_of :: "'a Extension \<Rightarrow> (string \<times> 'a ExtensionCommandFunction) list" where
  "commands_of extension = (case createCommands extension of None \<Rightarrow> [] | Some cs \<Rightarrow> cs)"

definition contributed_commands :: "'a Extension list \<Rightarrow> (string \<times> 'a ExtensionCommandFunction) list" where
  "contributed_commands extensions = concat (map commands_of extensions)"

definition contributed_names :: "'a Extension list \<Rightarrow> string list" where
  "contributed_names extensions = map fst (contributed_commands extensions)"

text \<open>The entry of \<open>commands\<close> that an entry of \<open>unchained\<close> becomes.\<close>

fun shape :: "'a UnchainedEntry \<Rightarrow> 'a CommandShape" where
  "shape (UnchainedEntry n command isEnabled') = \<lparr>call = command, isEnabled = isEnabled'\<rparr>"

text \<open>The store before any view-ready phase: neither key is set.\<close>

definition initial_store :: "'a ManagerStore" where
  "initial_store = \<lparr>commands_key = None, chain_key = None\<rparr>"

subsection \<open>Example commands and extensions\<close>

text \<open>
  A command written as the documentation of \<open>createCommands\<close> shows it
  (\<open>if (dispatch) { dispatch(tr.insertText(...)) } return true\<close>): it adds its edit to the
  transaction of the state in place and passes that same transaction to \<open>dispatch\<close>.
\<close>

definition insertText :: "string ExtensionCommandFunction" where
  "insertText text ctx w =
     (case dispatch ctx of
        Some dispatch' \<Rightarrow>
          (case dispatch' (tr (state ctx)) (add_edits (tr (state ctx)) [text] w) of
             (Inl e, w') \<Rightarrow> (Inl e, w')
           | (Inr u, w') \<Rightarrow> (Inr True, w'))
      | None \<Rightarrow> (Inr True, w))"

definition toggleBold :: "string ExtensionCommandFunction" where
  "toggleBold = (\<lambda>unused. insertText ''toggleBold'')"

definition bold_extension :: "string Extension" where
  "bold_extension = \<lparr>name = ''bold'', createCommands = Some [(''toggleBold'', toggleBold)]\<rparr>"

definition text_extension :: "string Extension" where
  "text_extension = \<lparr>name = ''text'', createCommands = Some [(''insertText'', insertText)]\<rparr>"

definition plain_extension :: "string Extension" where
  "plain_extension = \<lparr>name = ''plain'', createCommands = None\<rparr>"

definition run_extension :: "string Extension" where
  "run_extension = \<lparr>name = ''runner'', createCommands = Some [(''run'', toggleBold)]\<rparr>"

text \<open>
  \<open>onCreate\<close> publishes the two accessors in the extension store with
  \<open>setExtensionStore\<close>; a key of that store that was never set is undefined.
\<close>

record 'a ExtensionStore =
  getCommands_entry :: "('a ManagerStore \<Rightarrow> error + (string \<times> 'a CommandShape) list) option"
  getChain_entry :: "('a ManagerStore \<Rightarrow> error + 'a Chained) option"

definition onCreate :: "'a ExtensionStore \<Rightarrow> 'a ExtensionStore" where
  "onCreate extensionStore =
     extensionStore\<lparr>getCommands_entry := Some getCommands, getChain_entry := Some getChain\<rparr>"

subsection \<open>Calling the registry\<close>

text \<open>
  The caller's side of the chain. \<open>chain.a(args)\<close> looks the method up on the chain object
  and calls it; what it returns is a reference, and the next method is looked up on the
  object behind it. The only chain object there is in one registry is the published one, so
  a reference to anything else has no method to call.
\<close>

definition call_method :: "'a Chained \<Rightarrow> string \<Rightarrow> 'a \<Rightarrow> ChainRef effect" where
  "call_method object k args w =
     (case map_of (methods object) k of
        None \<Rightarrow> (Inl TypeError, w)
      | Some method \<Rightarrow> method args w)"

definition call_run :: "'a Chained \<Rightarrow> unit effect" where
  "call_run object w = (case run object of None \<Rightarrow> (Inl TypeError, w) | Some run' \<Rightarrow> run' w)"

text \<open>The expression \<open>chain.a(argsA).b(argsB).run()\<close>.\<close>

definition chain_a_b_run :: "'a Chained \<Rightarrow> string \<Rightarrow> 'a \<Rightarrow> string \<Rightarrow> 'a \<Rightarrow> unit effect" where
  "chain_a_b_run chain a argsA b argsB w =
     (case call_method chain a argsA w of
        (Inl e, w1) \<Rightarrow> (Inl e, w1)
      | (Inr r1, w1) \<Rightarrow>
          if r1 \<noteq> self chain then (Inl TypeError, w1)
          else (case call_method chain b argsB w1 of
                  (Inl e, w2) \<Rightarrow> (Inl e, w2)
                | (Inr r2, w2) \<Rightarrow>
                    if r2 \<noteq> self chain then (Inl TypeError, w2) else call_run chain w2))"

text \<open>
  Several view-ready phases one after the other, each with the identity of the chain object
  that its \<open>onView\<close> creates. A phase that raises leaves the store as it found it.
\<close>

fun view_ready_phases ::
  "(ChainRef \<times> 'a Extension list) list \<Rightarrow> 'a ManagerStore \<Rightarrow> 'a ManagerStore" where
  "view_ready_phases [] store = store"
| "view_ready_phases ((fresh, extensions) # rest) store =
     view_ready_phases rest (snd (view_ready fresh extensions store))"

definition fails :: "ChainRef \<times> 'a Extension list \<Rightarrow> bool" where
  "fails p = isl (fst (view_ready (fst p) (snd p) initial_store))"

text \<open>The two errors of the specification that have no code of their own in the source.\<close>

definition outer_scope_error :: error where
  "outer_scope_error = RemirrorError (Some COMMANDS_CALLED_IN_OUTER_SCOPE) None"


subsection \<open>What a command may be assumed to do\<close>

text \<open>
  The registry cannot see inside a command. The statements below that speak of all effects
  of a call name what they assume of the command:
  \<^item> it neither focuses the view nor commits when it is given no dispatch;
  \<^item> given the view's dispatch, it does not focus the view and commits at most once;
  \<^item> called as a chain step, it adds its edits to the pending change-set in place, and
    does nothing else;
  \<^item> on one call, it deals with whatever dispatch it is handed as a script says: the
    script gives each call of dispatch, with the change-set passed and the world at that
    moment, and how the command goes on when the call returns; a call that raises ends the
    command with that error. A command that never calls dispatch has a script without
    calls; a command may call it any number of times.
\<close>

definition quiet_without_dispatch :: "'a ExtensionCommandFunction \<Rightarrow> bool" where
  "quiet_without_dispatch command \<longleftrightarrow>
     (\<forall>args s w. focus_calls (snd (command args \<lparr>state = s, dispatch = None, view = EditorView\<rparr> w)) = focus_calls w \<and>
        commits (snd (command args \<lparr>state = s, dispatch = None, view = EditorView\<rparr> w)) = commits w)"

definition commits_at_most_once :: "'a ExtensionCommandFunction \<Rightarrow> bool" where
  "commits_at_most_once command \<longleftrightarrow>
     (\<forall>args s w. focus_calls (snd (command args \<lparr>state = s, dispatch = Some view_dispatch, view = EditorView\<rparr> w)) = focus_calls w \<and>
        length (commits (snd (command args \<lparr>state = s, dispatch = Some view_dispatch, view = EditorView\<rparr> w)))
          \<le> Suc (length (commits w)))"

definition mutates_in_place ::
  "'a ExtensionCommandFunction \<Rightarrow> ('a \<Rightarrow> world \<Rightarrow> edit list) \<Rightarrow> bool" where
  "mutates_in_place command edits \<longleftrightarrow>
     (\<forall>args w. \<exists>b.
        command args
          \<lparr>state = view_state w, dispatch = Some (chained_dispatch (view_state w)),
           view = EditorView\<rparr> w =
        (Inr b, add_edits (tr (view_state w)) (edits args w) w))"






subsection \<open>More example commands, and a world to run them in\<close>

text \<open>
  \<open>focusFirst\<close> is \<open>() => ({ view }) => { view.focus(); return true }\<close>.
  \<open>commitTwice\<close> is
  \<open>() => ({ state, dispatch, view }) => { if (dispatch) { dispatch(state.tr); dispatch(view.state.tr) } return true }\<close>.
  \<open>cloneTransaction\<close> makes a new change-set from the pending one, adds its edit to the
  new one and dispatches the new one. \<open>rightThenClone\<close> adds its edit to the pending
  change-set and dispatches it, then makes a copy and dispatches the copy. Each of the
  three commands that dispatch comes with its script. \<open>appendCustom\<close> is an updater
  callback for \<open>customTransaction\<close>.
\<close>

definition world0 :: world where
  "world0 = \<lparr>heap = (\<lambda>t. []), view_state = \<lparr>doc = [], tr = 0\<rparr>, focus_calls = 0,
              commits = [], next_tr = 1\<rparr>"

definition focusFirst :: "unit ExtensionCommandFunction" where
  "focusFirst args ctx w = (Inr True, view_focus w)"

definition commitTwice :: "unit ExtensionCommandFunction" where
  "commitTwice args ctx w =
     (case dispatch ctx of
        Some dispatch' \<Rightarrow>
          (case dispatch' (tr (state ctx)) w of
             (Inl e, w1) \<Rightarrow> (Inl e, w1)
           | (Inr u, w1) \<Rightarrow>
               (case dispatch' (tr (view_state w1)) w1 of
                  (Inl e, w2) \<Rightarrow> (Inl e, w2)
                | (Inr u, w2) \<Rightarrow> (Inr True, w2)))
      | None \<Rightarrow> (Inr True, w))"

definition cloneTransaction :: "string ExtensionCommandFunction" where
  "cloneTransaction text ctx w =
     (case dispatch ctx of
        Some dispatch' \<Rightarrow>
          (let transaction = next_tr w;
               w1 = w\<lparr>heap := (heap w)(transaction := heap w (tr (state ctx)) @ [text]),
                      next_tr := Suc transaction\<rparr>
           in case dispatch' transaction w1 of
                (Inl e, w') \<Rightarrow> (Inl e, w')
              | (Inr u, w') \<Rightarrow> (Inr True, w'))
      | None \<Rightarrow> (Inr True, w))"

definition appendCustom :: "Transaction \<Rightarrow> world \<Rightarrow> world" where
  "appendCustom transaction = add_edits transaction [''custom'']"

definition example_extensions :: "string Extension list" where
  "example_extensions = [bold_extension, plain_extension, text_extension]"

definition example_store :: "string ManagerStore" where
  "example_store = snd (view_ready 0 example_extensions initial_store)"

definition duplicate_extensions :: "string Extension list" where
  "duplicate_extensions = [bold_extension, text_extension, bold_extension]"

definition rightThenClone :: "string ExtensionCommandFunction" where
  "rightThenClone text ctx w =
     (case dispatch ctx of
        Some dispatch' \<Rightarrow>
          (case dispatch' (tr (state ctx)) (add_edits (tr (state ctx)) [text] w) of
             (Inl e, w') \<Rightarrow> (Inl e, w')
           | (Inr u, w1) \<Rightarrow>
               (let transaction = next_tr w1;
                    w2 = w1\<lparr>heap := (heap w1)(transaction := heap w1 (tr (state ctx))),
                           next_tr := Suc transaction\<rparr>
                in case dispatch' transaction w2 of
                     (Inl e, w') \<Rightarrow> (Inl e, w')
                   | (Inr u, w') \<Rightarrow> (Inr True, w')))
      | None \<Rightarrow> (Inr True, w))"




definition clone_extension :: "string Extension" where
  "clone_extension =
     \<lparr>name = ''clone'',
      createCommands = Some [(''cloneTransaction'', cloneTransaction),
                             (''rightThenClone'', rightThenClone)]\<rparr>"



definition empty_extension_store :: "string ExtensionStore" where
  "empty_extension_store = \<lparr>getCommands_entry = None, getChain_entry = None\<rparr>"

section \<open>Properties\<close>

subsection \<open>The name guard and the loop over the extensions\<close>

lemma contributed_names_simps [simp]:
  "contributed_names [] = []"
  "contributed_names (x # xs) = map fst (commands_of x) @ contributed_names xs"
  by (simp_all add: contributed_names_def contributed_commands_def)

lemma contributed_commands_simps [simp]:
  "contributed_commands [] = []"
  "contributed_commands (x # xs) = commands_of x @ contributed_commands xs"
  by (simp_all add: contributed_commands_def)

lemma example_names [simp]:
  "commands_of bold_extension = [(''toggleBold'', toggleBold)]"
  "commands_of text_extension = [(''insertText'', insertText)]"
  "commands_of plain_extension = []"
  "commands_of run_extension = [(''run'', toggleBold)]"
  by (simp_all add: commands_of_def bold_extension_def text_extension_def plain_extension_def
      run_extension_def)

lemma forEachCommand_error:
  "forEachCommand n cs s = Inl e \<Longrightarrow> code e = Some DUPLICATE_COMMAND_NAMES"
  by (induction n cs s rule: forEachCommand.induct)
     (auto simp: throwIfNameNotUnique_def invariant_def split: if_splits sum.splits)

lemma forEachCommand_ok_iff:
  "(\<exists>s'. forEachCommand n cs s = Inr s') \<longleftrightarrow>
     distinct (map fst cs) \<and> set (map fst cs) \<inter> (names s \<union> forbiddenNames) = {}"
proof (induction n cs s rule: forEachCommand.induct)
  case (1 n s)
  show ?case by simp
next
  case (2 n k c rest s)
  show ?case
  proof (cases "k \<in> names s \<or> k \<in> forbiddenNames")
    case True
    then show ?thesis
      by (auto simp: throwIfNameNotUnique_def invariant_def)
  next
    case False
    then show ?thesis
      using 2 [of "insert k (names s)" "()"]
      by (auto simp: throwIfNameNotUnique_def invariant_def)
  qed
qed

lemma forEachCommand_names:
  "forEachCommand n cs s = Inr s' \<Longrightarrow> names s' = names s \<union> set (map fst cs)"
  by (induction n cs s rule: forEachCommand.induct)
     (auto simp: throwIfNameNotUnique_def invariant_def split: if_splits sum.splits)

lemma forEachCommand_frame:
  "forEachCommand n cs s = Inr s' \<Longrightarrow>
     commands s' = commands s \<and> self (chained s') = self (chained s) \<and> run (chained s') = run (chained s)"
  by (induction n cs s rule: forEachCommand.induct)
     (auto simp: throwIfNameNotUnique_def invariant_def split: if_splits sum.splits)

lemma forEachCommand_distinct:
  "forEachCommand n cs s = Inr s' \<Longrightarrow> distinct (map fst (unchained s)) \<Longrightarrow>
     distinct (map fst (unchained s'))"
  by (induction n cs s rule: forEachCommand.induct)
     (auto simp: throwIfNameNotUnique_def invariant_def distinct_update split: if_splits sum.splits)

lemma forEachCommand_methods:
  "forEachCommand n cs s = Inr s' \<Longrightarrow>
     map_of (methods (chained s')) k =
       (case map_of cs k of
          Some c \<Rightarrow> Some (chainedFactory c (self (chained s)))
        | None \<Rightarrow> map_of (methods (chained s)) k)"
proof (induction n cs s rule: forEachCommand.induct)
  case (1 n s)
  then show ?case by simp
next
  case (2 n k0 c0 rest s)
  let ?s1 = "s\<lparr>names := insert k0 (names s),
                unchained := AList.update k0
                  (UnchainedEntry n (unchainedFactory c0 None) (unchainedFactory c0 (Some False)))
                  (unchained s),
                chained := (chained s)\<lparr>methods :=
                  AList.update k0 (chainedFactory c0 (self (chained s))) (methods (chained s))\<rparr>\<rparr>"
  from "2.prems" have fresh: "k0 \<notin> names s" "k0 \<notin> forbiddenNames"
    and run: "forEachCommand n rest ?s1 = Inr s'"
    by (auto simp: throwIfNameNotUnique_def invariant_def split: if_splits sum.splits)
  from run have "\<exists>t. forEachCommand n rest ?s1 = Inr t" by blast
  then have "set (map fst rest) \<inter> (names ?s1 \<union> forbiddenNames) = {}"
    by (simp only: forEachCommand_ok_iff)
  then have "k0 \<notin> fst ` set rest" by auto
  then have none: "map_of rest k0 = None"
    by (simp add: map_of_eq_None_iff)
  have ih: "map_of (methods (chained s')) k =
       (case map_of rest k of
          Some c \<Rightarrow> Some (chainedFactory c (self (chained ?s1)))
        | None \<Rightarrow> map_of (methods (chained ?s1)) k)"
    using "2.IH" [of "insert k0 (names s)" "()"] fresh run
    by (simp add: throwIfNameNotUnique_def invariant_def)
  show ?case
    using ih none by (auto simp: update_conv' split: option.splits)
qed

lemma forEachCommand_unchained:
  "forEachCommand n cs s = Inr s' \<Longrightarrow>
     map_option shape (map_of (unchained s') k) =
       (case map_of cs k of
          Some c \<Rightarrow> Some \<lparr>call = unchainedFactory c None, isEnabled = unchainedFactory c (Some False)\<rparr>
        | None \<Rightarrow> map_option shape (map_of (unchained s) k))"
proof (induction n cs s rule: forEachCommand.induct)
  case (1 n s)
  then show ?case by simp
next
  case (2 n k0 c0 rest s)
  let ?s1 = "s\<lparr>names := insert k0 (names s),
                unchained := AList.update k0
                  (UnchainedEntry n (unchainedFactory c0 None) (unchainedFactory c0 (Some False)))
                  (unchained s),
                chained := (chained s)\<lparr>methods :=
                  AList.update k0 (chainedFactory c0 (self (chained s))) (methods (chained s))\<rparr>\<rparr>"
  from "2.prems" have fresh: "k0 \<notin> names s" "k0 \<notin> forbiddenNames"
    and run: "forEachCommand n rest ?s1 = Inr s'"
    by (auto simp: throwIfNameNotUnique_def invariant_def split: if_splits sum.splits)
  from run have "\<exists>t. forEachCommand n rest ?s1 = Inr t" by blast
  then have "set (map fst rest) \<inter> (names ?s1 \<union> forbiddenNames) = {}"
    by (simp only: forEachCommand_ok_iff)
  then have "k0 \<notin> fst ` set rest" by auto
  then have none: "map_of rest k0 = None"
    by (simp add: map_of_eq_None_iff)
  have ih: "map_option shape (map_of (unchained s') k) =
       (case map_of rest k of
          Some c \<Rightarrow> Some \<lparr>call = unchainedFactory c None, isEnabled = unchainedFactory c (Some False)\<rparr>
        | None \<Rightarrow> map_option shape (map_of (unchained ?s1) k))"
    using "2.IH" [of "insert k0 (names s)" "()"] fresh run
    by (simp add: throwIfNameNotUnique_def invariant_def)
  show ?case
    using ih none by (auto simp: update_conv' split: option.splits)
qed

lemma forEachCommand_keys:
  "forEachCommand n cs s = Inr s' \<Longrightarrow>
     fst ` set (unchained s') = fst ` set (unchained s) \<union> set (map fst cs)"
  by (induction n cs s rule: forEachCommand.induct)
     (auto simp: throwIfNameNotUnique_def invariant_def dom_update split: if_splits sum.splits)

lemma forEachExtension_cases:
  "forEachExtension x s = forEachCommand (name x) (commands_of x) s"
  by (simp add: forEachExtension_def commands_of_def split: option.splits)

lemma visit_extensions_error:
  "visit_extensions xs s = Inl e \<Longrightarrow> code e = Some DUPLICATE_COMMAND_NAMES"
  by (induction xs arbitrary: s)
     (auto simp: forEachExtension_cases dest: forEachCommand_error split: sum.splits)

lemma visit_extensions_ok_iff:
  "(\<exists>s'. visit_extensions xs s = Inr s') \<longleftrightarrow>
     distinct (contributed_names xs) \<and>
     set (contributed_names xs) \<inter> (names s \<union> forbiddenNames) = {}"
proof (induction xs arbitrary: s)
  case Nil
  show ?case by simp
next
  case (Cons x xs)
  let ?cs = "commands_of x"
  show ?case
  proof (cases "forEachCommand (name x) ?cs s")
    case (Inl e)
    then have "\<not> (\<exists>s'. forEachCommand (name x) ?cs s = Inr s')" by simp
    then have "\<not> (distinct (map fst ?cs) \<and> set (map fst ?cs) \<inter> (names s \<union> forbiddenNames) = {})"
      by (simp add: forEachCommand_ok_iff)
    then have rhs: "\<not> (distinct (contributed_names (x # xs)) \<and>
        set (contributed_names (x # xs)) \<inter> (names s \<union> forbiddenNames) = {})"
      by auto
    have lhs: "\<not> (\<exists>s'. visit_extensions (x # xs) s = Inr s')"
      using Inl by (simp add: forEachExtension_cases)
    show ?thesis
      using lhs rhs by blast
  next
    case (Inr s1)
    then have "\<exists>s'. forEachCommand (name x) ?cs s = Inr s'" by blast
    then have ok: "distinct (map fst ?cs)" "set (map fst ?cs) \<inter> (names s \<union> forbiddenNames) = {}"
      by (simp_all add: forEachCommand_ok_iff)
    have n1: "names s1 = names s \<union> set (map fst ?cs)"
      using Inr by (rule forEachCommand_names)
    have "(\<exists>s'. visit_extensions (x # xs) s = Inr s') \<longleftrightarrow> (\<exists>s'. visit_extensions xs s1 = Inr s')"
      using Inr by (simp add: forEachExtension_cases)
    also have "\<dots> \<longleftrightarrow> distinct (contributed_names xs) \<and>
        set (contributed_names xs) \<inter> (names s1 \<union> forbiddenNames) = {}"
      by (rule Cons.IH)
    also have "\<dots> \<longleftrightarrow> distinct (contributed_names (x # xs)) \<and>
        set (contributed_names (x # xs)) \<inter> (names s \<union> forbiddenNames) = {}"
      using ok n1 by auto
    finally show ?thesis .
  qed
qed

lemma visit_extensions_Cons:
  assumes "visit_extensions (x # xs) s = Inr s'"
  obtains s1 where "forEachCommand (name x) (commands_of x) s = Inr s1"
    and "visit_extensions xs s1 = Inr s'"
  using assms by (auto simp: forEachExtension_cases split: sum.splits)

lemma visit_extensions_names:
  "visit_extensions xs s = Inr s' \<Longrightarrow> names s' = names s \<union> set (contributed_names xs)"
proof (induction xs arbitrary: s)
  case Nil
  then show ?case by simp
next
  case (Cons x xs)
  from Cons.prems obtain s1 where a: "forEachCommand (name x) (commands_of x) s = Inr s1"
    and b: "visit_extensions xs s1 = Inr s'"
    by (rule visit_extensions_Cons)
  show ?case
    using forEachCommand_names [OF a] Cons.IH [OF b] by (simp add: Un_assoc)
qed

lemma visit_extensions_frame:
  "visit_extensions xs s = Inr s' \<Longrightarrow>
     commands s' = commands s \<and> self (chained s') = self (chained s) \<and> run (chained s') = run (chained s)"
proof (induction xs arbitrary: s)
  case Nil
  then show ?case by simp
next
  case (Cons x xs)
  from Cons.prems obtain s1 where a: "forEachCommand (name x) (commands_of x) s = Inr s1"
    and b: "visit_extensions xs s1 = Inr s'"
    by (rule visit_extensions_Cons)
  show ?case
    using forEachCommand_frame [OF a] Cons.IH [OF b] by simp
qed

lemma visit_extensions_distinct:
  "visit_extensions xs s = Inr s' \<Longrightarrow> distinct (map fst (unchained s)) \<Longrightarrow>
     distinct (map fst (unchained s'))"
proof (induction xs arbitrary: s)
  case Nil
  then show ?case by simp
next
  case (Cons x xs)
  from Cons.prems(1) obtain s1 where a: "forEachCommand (name x) (commands_of x) s = Inr s1"
    and b: "visit_extensions xs s1 = Inr s'"
    by (rule visit_extensions_Cons)
  show ?case
    using forEachCommand_distinct [OF a Cons.prems(2)] Cons.IH [OF b] by simp
qed

lemma visit_extensions_keys:
  "visit_extensions xs s = Inr s' \<Longrightarrow>
     fst ` set (unchained s') = fst ` set (unchained s) \<union> set (contributed_names xs)"
proof (induction xs arbitrary: s)
  case Nil
  then show ?case by simp
next
  case (Cons x xs)
  from Cons.prems obtain s1 where a: "forEachCommand (name x) (commands_of x) s = Inr s1"
    and b: "visit_extensions xs s1 = Inr s'"
    by (rule visit_extensions_Cons)
  show ?case
    using forEachCommand_keys [OF a] Cons.IH [OF b] by (simp add: Un_assoc)
qed

lemma visit_extensions_methods:
  "visit_extensions xs s = Inr s' \<Longrightarrow>
     map_of (methods (chained s')) k =
       (case map_of (contributed_commands xs) k of
          Some c \<Rightarrow> Some (chainedFactory c (self (chained s)))
        | None \<Rightarrow> map_of (methods (chained s)) k)"
proof (induction xs arbitrary: s)
  case Nil
  then show ?case by simp
next
  case (Cons x xs)
  from Cons.prems obtain s1 where a: "forEachCommand (name x) (commands_of x) s = Inr s1"
    and b: "visit_extensions xs s1 = Inr s'"
    by (rule visit_extensions_Cons)
  from b have "\<exists>t. visit_extensions xs s1 = Inr t" by blast
  then have "set (contributed_names xs) \<inter> (names s1 \<union> forbiddenNames) = {}"
    by (simp add: visit_extensions_ok_iff)
  then have disj: "set (contributed_names xs) \<inter> set (map fst (commands_of x)) = {}"
    using forEachCommand_names [OF a] by auto
  have later: "map_of (contributed_commands xs) k = None" if "map_of (commands_of x) k = Some c" for c
  proof -
    from that have "k \<in> set (map fst (commands_of x))"
      by (metis map_of_eq_None_iff option.distinct(1) set_map)
    with disj have "k \<notin> fst ` set (contributed_commands xs)"
      by (auto simp: contributed_names_def)
    then show ?thesis by (simp add: map_of_eq_None_iff)
  qed
  show ?case
    using forEachCommand_methods [OF a, of k] Cons.IH [OF b] forEachCommand_frame [OF a] later
    by (auto simp: map_add_def split: option.splits)
qed

lemma visit_extensions_unchained:
  "visit_extensions xs s = Inr s' \<Longrightarrow>
     map_option shape (map_of (unchained s') k) =
       (case map_of (contributed_commands xs) k of
          Some c \<Rightarrow> Some \<lparr>call = unchainedFactory c None, isEnabled = unchainedFactory c (Some False)\<rparr>
        | None \<Rightarrow> map_option shape (map_of (unchained s) k))"
proof (induction xs arbitrary: s)
  case Nil
  then show ?case by simp
next
  case (Cons x xs)
  from Cons.prems obtain s1 where a: "forEachCommand (name x) (commands_of x) s = Inr s1"
    and b: "visit_extensions xs s1 = Inr s'"
    by (rule visit_extensions_Cons)
  from b have "\<exists>t. visit_extensions xs s1 = Inr t" by blast
  then have "set (contributed_names xs) \<inter> (names s1 \<union> forbiddenNames) = {}"
    by (simp add: visit_extensions_ok_iff)
  then have disj: "set (contributed_names xs) \<inter> set (map fst (commands_of x)) = {}"
    using forEachCommand_names [OF a] by auto
  have later: "map_of (contributed_commands xs) k = None" if "map_of (commands_of x) k = Some c" for c
  proof -
    from that have "k \<in> set (map fst (commands_of x))"
      by (metis map_of_eq_None_iff option.distinct(1) set_map)
    with disj have "k \<notin> fst ` set (contributed_commands xs)"
      by (auto simp: contributed_names_def)
    then show ?thesis by (simp add: map_of_eq_None_iff)
  qed
  show ?case
    using forEachCommand_unchained [OF a, of k] Cons.IH [OF b] later
    by (auto simp: map_add_def split: option.splits)
qed

lemma fold_attach_keys:
  "fst ` set (fold attach un cs) = fst ` set cs \<union> fst ` set un"
proof (induction un arbitrary: cs)
  case Nil
  show ?case by simp
next
  case (Cons u un)
  obtain k n c e where u: "u = (k, UnchainedEntry n c e)"
    by (metis UnchainedEntry.exhaust surj_pair)
  show ?case
    by (simp add: u Cons.IH dom_update Un_assoc Un_left_commute insert_commute)
qed

lemma fold_attach_lookup:
  "distinct (map fst un) \<Longrightarrow>
     map_of (fold attach un cs) k =
       (case map_of un k of Some e \<Rightarrow> Some (shape e) | None \<Rightarrow> map_of cs k)"
proof (induction un arbitrary: cs)
  case Nil
  show ?case by simp
next
  case (Cons u un)
  obtain k0 n c e where u: "u = (k0, UnchainedEntry n c e)"
    by (metis UnchainedEntry.exhaust surj_pair)
  from Cons.prems have "k0 \<notin> fst ` set un" and d: "distinct (map fst un)"
    by (auto simp: u)
  then have none: "map_of un k0 = None"
    by (simp add: map_of_eq_None_iff)
  show ?case
    using Cons.IH [OF d, of "AList.update k0 \<lparr>call = c, isEnabled = e\<rparr> cs"] none
    by (auto simp: u update_conv' split: option.splits)
qed

lemma view_ready_ok:
  assumes "visit_extensions xs (onView fresh) = Inr s"
  shows "view_ready fresh xs store = (Inr (), afterExtensionLoop EditorView s store)"
  using assms by (simp add: view_ready_def)

subsection \<open>Building the registry\<close>

text \<open>
  Claim C1. For every list of extensions whose contributed command names are pairwise
  distinct and none of which is \<open>run\<close> or \<open>chain\<close>, the view-ready build succeeds, both
  store keys are set, and the keys of the published \<open>commands\<close> are exactly the
  contributed names; an extension without \<open>createCommands\<close> contributes nothing.
\<close>

theorem view_ready_publishes_all_names:
  assumes "distinct (contributed_names extensions)"
    and "''run'' \<notin> set (contributed_names extensions)"
    and "''chain'' \<notin> set (contributed_names extensions)"
  shows "\<exists>cs ch. view_ready fresh extensions store =
            (Inr (), store\<lparr>commands_key := Some cs, chain_key := Some ch\<rparr>) \<and>
          fst ` set cs = set (contributed_names extensions)"
proof -
  from assms have "distinct (contributed_names extensions) \<and>
      set (contributed_names extensions) \<inter> (names (onView fresh) \<union> forbiddenNames) = {}"
    by (auto simp: onView_def forbiddenNames_def)
  then obtain s where s: "visit_extensions extensions (onView fresh) = Inr s"
    using visit_extensions_ok_iff [of extensions "onView fresh"] by blast
  have keys: "fst ` set (unchained s) = set (contributed_names extensions)"
    using visit_extensions_keys [OF s] by (simp add: onView_def)
  have cmds: "commands s = []"
    using visit_extensions_frame [OF s] by (simp add: onView_def)
  let ?cs = "fold attach (unchained s) (commands s)"
  let ?ch = "(chained s)\<lparr>run := Some (chained_run EditorView)\<rparr>"
  have "view_ready fresh extensions store =
      (Inr (), store\<lparr>commands_key := Some ?cs, chain_key := Some ?ch\<rparr>)"
    using s by (simp add: view_ready_def afterExtensionLoop_def)
  moreover have "fst ` set ?cs = set (contributed_names extensions)"
    by (simp add: fold_attach_keys keys cmds)
  ultimately show ?thesis by blast
qed

theorem view_ready_publishes_all_names_witness:
  "distinct (contributed_names [bold_extension, plain_extension, text_extension]) \<and>
   ''run'' \<notin> set (contributed_names [bold_extension, plain_extension, text_extension]) \<and>
   ''chain'' \<notin> set (contributed_names [bold_extension, plain_extension, text_extension]) \<and>
   (\<exists>cs ch. view_ready 0 [bold_extension, plain_extension, text_extension] initial_store =
        (Inr (), initial_store\<lparr>commands_key := Some cs, chain_key := Some ch\<rparr>) \<and>
      fst ` set cs = {''toggleBold'', ''insertText''})"
  using view_ready_publishes_all_names
    [of "[bold_extension, plain_extension, text_extension]" 0 initial_store]
  by simp

text \<open>
  Claim C2. If some command name is contributed twice in one build, or is one of the
  forbidden names \<open>run\<close> and \<open>chain\<close>, the build fails with the code
  \<open>DUPLICATE_COMMAND_NAMES\<close> and the store is left exactly as it was: neither key is set.
\<close>

theorem view_ready_rejects_duplicates:
  assumes "\<not> distinct (contributed_names extensions) \<or>
      ''run'' \<in> set (contributed_names extensions) \<or>
      ''chain'' \<in> set (contributed_names extensions)"
  shows "\<exists>e. view_ready fresh extensions store = (Inl e, store) \<and>
          code e = Some DUPLICATE_COMMAND_NAMES"
proof -
  from assms have "\<not> (distinct (contributed_names extensions) \<and>
      set (contributed_names extensions) \<inter> (names (onView fresh) \<union> forbiddenNames) = {})"
    by (auto simp: forbiddenNames_def)
  then have "\<not> (\<exists>s. visit_extensions extensions (onView fresh) = Inr s)"
    by (simp add: visit_extensions_ok_iff)
  then obtain e where e: "visit_extensions extensions (onView fresh) = Inl e"
    by (cases "visit_extensions extensions (onView fresh)") auto
  have "code e = Some DUPLICATE_COMMAND_NAMES"
    using e by (rule visit_extensions_error)
  then show ?thesis
    using e by (simp add: view_ready_def)
qed

theorem view_ready_rejects_duplicates_witness:
  "\<not> distinct (contributed_names [bold_extension, text_extension, bold_extension]) \<and>
   ''run'' \<in> set (contributed_names [text_extension, run_extension]) \<and>
   (\<exists>e. view_ready 0 [bold_extension, text_extension, bold_extension] initial_store =
        (Inl e, initial_store) \<and> code e = Some DUPLICATE_COMMAND_NAMES) \<and>
   (\<exists>e. view_ready 0 [text_extension, run_extension] initial_store =
        (Inl e, initial_store) \<and> code e = Some DUPLICATE_COMMAND_NAMES)"
  using view_ready_rejects_duplicates
      [of "[bold_extension, text_extension, bold_extension]" 0 initial_store]
    view_ready_rejects_duplicates
      [of "[text_extension, run_extension]" 0 initial_store]
  by simp

subsection \<open>What the registry holds after a successful build\<close>

lemma view_ready_succeeds:
  assumes "distinct (contributed_names extensions)"
    and "set (contributed_names extensions) \<inter> forbiddenNames = {}"
  shows "view_ready fresh extensions store = (Inr (), snd (view_ready fresh extensions store))"
proof -
  from assms have "distinct (contributed_names extensions) \<and>
      set (contributed_names extensions) \<inter> (names (onView fresh) \<union> forbiddenNames) = {}"
    by (auto simp: onView_def)
  then obtain s where "visit_extensions extensions (onView fresh) = Inr s"
    using visit_extensions_ok_iff [of extensions "onView fresh"] by blast
  then show ?thesis
    by (simp add: view_ready_def)
qed

lemma view_ready_commands:
  assumes "view_ready fresh extensions store = (Inr (), store')"
    and "map_of (contributed_commands extensions) k = Some c"
  shows "\<exists>cs. commands_key store' = Some cs \<and>
           map_of cs k = Some \<lparr>call = unchainedFactory c None, isEnabled = unchainedFactory c (Some False)\<rparr>"
proof -
  from assms(1) obtain s where s: "visit_extensions extensions (onView fresh) = Inr s"
    and store': "store' = afterExtensionLoop EditorView s store"
    by (auto simp: view_ready_def split: sum.splits)
  have d: "distinct (map fst (unchained s))"
    using visit_extensions_distinct [OF s] by (simp add: onView_def)
  have "map_option shape (map_of (unchained s) k) =
      Some \<lparr>call = unchainedFactory c None, isEnabled = unchainedFactory c (Some False)\<rparr>"
    using visit_extensions_unchained [OF s, of k] assms(2) by simp
  then have "map_of (fold attach (unchained s) (commands s)) k =
      Some \<lparr>call = unchainedFactory c None, isEnabled = unchainedFactory c (Some False)\<rparr>"
    by (auto simp: fold_attach_lookup [OF d])
  then show ?thesis
    by (simp add: store' afterExtensionLoop_def)
qed

lemma view_ready_chain:
  assumes "view_ready fresh extensions store = (Inr (), store')"
  shows "\<exists>ch. chain_key store' = Some ch \<and> self ch = fresh \<and>
           run ch = Some (chained_run EditorView) \<and>
           (\<forall>k. map_of (methods ch) k =
              map_option (\<lambda>c. chainedFactory c fresh) (map_of (contributed_commands extensions) k))"
proof -
  from assms(1) obtain s where s: "visit_extensions extensions (onView fresh) = Inr s"
    and store': "store' = afterExtensionLoop EditorView s store"
    by (auto simp: view_ready_def split: sum.splits)
  have self: "self (chained s) = fresh"
    using visit_extensions_frame [OF s] by (simp add: onView_def)
  have "map_of (methods (chained s)) k =
      map_option (\<lambda>c. chainedFactory c fresh) (map_of (contributed_commands extensions) k)" for k
    using visit_extensions_methods [OF s, of k] by (simp add: onView_def split: option.splits)
  then show ?thesis
    by (simp add: store' afterExtensionLoop_def self)
qed

lemma chainedFactory_in_place:
  assumes "mutates_in_place command edits"
  shows "chainedFactory command chained' args w =
           (Inr chained', add_edits (tr (view_state w)) (edits args w) w)"
proof -
  from assms obtain b where
    "command args
       \<lparr>state = view_state w, dispatch = Some (chained_dispatch (view_state w)),
        view = EditorView\<rparr> w =
     (Inr b, add_edits (tr (view_state w)) (edits args w) w)"
    unfolding mutates_in_place_def by blast
  then show ?thesis
    by (simp add: chainedFactory_def)
qed


subsection \<open>Facts about the examples\<close>

lemma example_build:
  "view_ready 0 example_extensions initial_store = (Inr (), example_store)"
  unfolding example_store_def
  by (rule view_ready_succeeds) (simp_all add: example_extensions_def forbiddenNames_def)

lemma example_lookup:
  "map_of (contributed_commands example_extensions) ''toggleBold'' = Some toggleBold"
  "map_of (contributed_commands example_extensions) ''insertText'' = Some insertText"
  by (simp_all add: example_extensions_def)

lemma insertText_quiet: "quiet_without_dispatch insertText"
  by (simp add: quiet_without_dispatch_def insertText_def)

lemma insertText_once: "commits_at_most_once insertText"
  by (simp add: commits_at_most_once_def insertText_def view_dispatch_def add_edits_def)

lemma insertText_in_place: "mutates_in_place insertText (\<lambda>text w. [text])"
  by (auto simp: mutates_in_place_def insertText_def chained_dispatch_def invariant_def)

lemma toggleBold_in_place: "mutates_in_place toggleBold (\<lambda>unused w. [''toggleBold''])"
  by (auto simp: mutates_in_place_def toggleBold_def insertText_def chained_dispatch_def
      invariant_def)







lemma commands_of_clone_extension [simp]:
  "commands_of clone_extension =
     [(''cloneTransaction'', cloneTransaction), (''rightThenClone'', rightThenClone)]"
  by (simp add: commands_of_def clone_extension_def)



subsection \<open>Unchained commands\<close>

text \<open>
  Claim C3, as amended. For every registered command and every argument list, the
  \<open>isEnabled\<close> entry of the registry triggers no focus and no commit of its own and
  supplies no commit operation: its result and its effects are exactly those of the wrapped
  command function called on a context without \<open>dispatch\<close>. So for every command that
  neither focuses nor commits when it is given no commit operation, calling \<open>isEnabled\<close>
  performs no commit and no focus side effect.
\<close>

theorem isEnabled_is_command_without_dispatch:
  assumes "view_ready fresh extensions store = (Inr (), store')"
    and "map_of (contributed_commands extensions) k = Some command"
  shows "\<exists>cs entry. commands_key store' = Some cs \<and> map_of cs k = Some entry \<and>
           isEnabled entry args w =
             command args \<lparr>state = view_state w, dispatch = None, view = EditorView\<rparr> w \<and>
           (quiet_without_dispatch command \<longrightarrow>
              focus_calls (snd (isEnabled entry args w)) = focus_calls w \<and>
              commits (snd (isEnabled entry args w)) = commits w)"
proof -
  from view_ready_commands [OF assms] obtain cs where cs: "commands_key store' = Some cs"
    and k: "map_of cs k =
      Some \<lparr>call = unchainedFactory command None, isEnabled = unchainedFactory command (Some False)\<rparr>"
    by blast
  have eq: "unchainedFactory command (Some False) args w =
      command args \<lparr>state = view_state w, dispatch = None, view = EditorView\<rparr> w"
    by (simp add: unchainedFactory_def)
  show ?thesis
    using cs k eq by (simp add: quiet_without_dispatch_def)
qed

theorem isEnabled_is_command_without_dispatch_witness:
  "view_ready 0 example_extensions initial_store = (Inr (), example_store) \<and>
   map_of (contributed_commands example_extensions) ''insertText'' = Some insertText \<and>
   quiet_without_dispatch insertText \<and>
   (\<exists>cs entry. commands_key example_store = Some cs \<and> map_of cs ''insertText'' = Some entry \<and>
      isEnabled entry ''hi'' world0 = (Inr True, world0))"
  using isEnabled_is_command_without_dispatch
      [OF example_build example_lookup(2), of "''hi''" world0]
    example_build example_lookup(2) insertText_quiet
  by (auto simp: insertText_def)

text \<open>
  The claim as it was stated, for every registered command, fails for a command that uses
  the view it is handed: the probe of \<open>focusFirst\<close> focuses the view.
\<close>

theorem isEnabled_focus_counterexample:
  "focus_calls (snd (unchainedFactory focusFirst (Some False) () world0)) = 1 \<and>
   focus_calls world0 = 0"
  by (simp add: unchainedFactory_def focusFirst_def view_focus_def world0_def)

text \<open>
  Claim C4, as amended. For every registered command and every argument list, one direct
  call makes the wrapper focus the view exactly once, before the command function runs,
  and commit nothing itself; the command function gets the view's own commit operation,
  and its result is the result of the call. So for every command that does not focus the
  view itself and commits at most once, one direct call focuses exactly once and commits at
  most once.
\<close>

theorem call_is_focus_then_command:
  assumes "view_ready fresh extensions store = (Inr (), store')"
    and "map_of (contributed_commands extensions) k = Some command"
  shows "\<exists>cs entry. commands_key store' = Some cs \<and> map_of cs k = Some entry \<and>
           call entry args w =
             command args \<lparr>state = view_state w, dispatch = Some view_dispatch, view = EditorView\<rparr>
               (view_focus w) \<and>
           focus_calls (view_focus w) = Suc (focus_calls w) \<and>
           commits (view_focus w) = commits w \<and>
           (commits_at_most_once command \<longrightarrow>
              focus_calls (snd (call entry args w)) = Suc (focus_calls w) \<and>
              length (commits (snd (call entry args w))) \<le> Suc (length (commits w)))"
proof -
  from view_ready_commands [OF assms] obtain cs where cs: "commands_key store' = Some cs"
    and k: "map_of cs k =
      Some \<lparr>call = unchainedFactory command None, isEnabled = unchainedFactory command (Some False)\<rparr>"
    by blast
  let ?ctx = "\<lparr>state = view_state w, dispatch = Some view_dispatch, view = EditorView\<rparr>"
  have eq: "unchainedFactory command None args w = command args ?ctx (view_focus w)"
    by (simp add: unchainedFactory_def view_focus_def)
  have focus: "focus_calls (view_focus w) = Suc (focus_calls w)" "commits (view_focus w) = commits w"
    by (simp_all add: view_focus_def)
  have "focus_calls (snd (command args ?ctx (view_focus w))) = Suc (focus_calls w) \<and>
      length (commits (snd (command args ?ctx (view_focus w)))) \<le> Suc (length (commits w))"
    if "commits_at_most_once command"
  proof -
    from that have "focus_calls (snd (command args ?ctx (view_focus w))) = focus_calls (view_focus w) \<and>
        length (commits (snd (command args ?ctx (view_focus w)))) \<le> Suc (length (commits (view_focus w)))"
      unfolding commits_at_most_once_def by blast
    then show ?thesis by (simp add: focus)
  qed
  then show ?thesis
    using cs k eq focus by simp
qed

theorem call_is_focus_then_command_witness:
  "view_ready 0 example_extensions initial_store = (Inr (), example_store) \<and>
   map_of (contributed_commands example_extensions) ''insertText'' = Some insertText \<and>
   commits_at_most_once insertText \<and>
   (\<exists>cs entry. commands_key example_store = Some cs \<and> map_of cs ''insertText'' = Some entry \<and>
      fst (call entry ''hi'' world0) = Inr True \<and>
      focus_calls (snd (call entry ''hi'' world0)) = 1 \<and>
      commits (snd (call entry ''hi'' world0)) = [(0, [''hi''])])"
  using call_is_focus_then_command
      [OF example_build example_lookup(2), of "''hi''" world0]
    example_build example_lookup(2) insertText_once
  by (auto simp: insertText_def view_dispatch_def view_focus_def add_edits_def world0_def)

text \<open>
  The claim as it was stated, for every registered command, fails for a command that calls
  the commit operation twice: one direct call of \<open>commitTwice\<close> commits two change-sets.
\<close>

theorem call_commits_twice_counterexample:
  "length (commits (snd (unchainedFactory commitTwice None () world0))) = 2 \<and> commits world0 = []"
  by (simp add: unchainedFactory_def commitTwice_def view_focus_def view_dispatch_def world0_def)

subsection \<open>The chain\<close>

text \<open>
  Claim C5. In \<open>chain.a(argsA).b(argsB).run()\<close>, where the commands behind \<open>a\<close> and
  \<open>b\<close> add their edits to the pending change-set in place, each step returns the chain
  object itself, whatever boolean the command returned; no step commits; and the whole
  expression commits exactly once, in \<open>run\<close>, the one pending change-set with the edits of
  both steps in it.
\<close>

theorem chain_commits_once:
  assumes "view_ready fresh extensions store = (Inr (), store')"
    and "map_of (contributed_commands extensions) a = Some commandA"
    and "map_of (contributed_commands extensions) b = Some commandB"
    and "mutates_in_place commandA editsA"
    and "mutates_in_place commandB editsB"
    and "t = tr (view_state w)"
    and "w1 = add_edits t (editsA argsA w) w"
    and "w2 = add_edits t (editsB argsB w1) w1"
  shows "\<exists>chain. chain_key store' = Some chain \<and>
           call_method chain a argsA w = (Inr (self chain), w1) \<and>
           call_method chain b argsB w1 = (Inr (self chain), w2) \<and>
           commits w2 = commits w \<and>
           chain_a_b_run chain a argsA b argsB w = view_dispatch t w2 \<and>
           commits (snd (chain_a_b_run chain a argsA b argsB w)) =
             commits w @ [(t, heap w t @ editsA argsA w @ editsB argsB w1)]"
proof -
  from view_ready_chain [OF assms(1)] obtain chain where chain: "chain_key store' = Some chain"
    and self: "self chain = fresh" and run: "run chain = Some (chained_run EditorView)"
    and methods: "\<And>k. map_of (methods chain) k =
        map_option (\<lambda>c. chainedFactory c fresh) (map_of (contributed_commands extensions) k)"
    by blast
  have state1: "view_state w1 = view_state w" and state2: "view_state w2 = view_state w"
    by (simp_all add: assms(7,8) add_edits_def)
  have stepA: "call_method chain a argsA w = (Inr (self chain), w1)"
    using chainedFactory_in_place [OF assms(4), of fresh argsA w]
    by (simp add: call_method_def methods assms(2) self assms(6,7))
  have stepB: "call_method chain b argsB w1 = (Inr (self chain), w2)"
    using chainedFactory_in_place [OF assms(5), of fresh argsB w1]
    by (simp add: call_method_def methods assms(3) self assms(6,8) state1)
  have log: "commits w2 = commits w"
    by (simp add: assms(7,8) add_edits_def)
  have content: "heap w2 t = heap w t @ editsA argsA w @ editsB argsB w1"
    by (simp add: assms(7,8) add_edits_def)
  have all: "chain_a_b_run chain a argsA b argsB w = view_dispatch t w2"
    by (simp add: chain_a_b_run_def stepA stepB call_run_def run chained_run_def state2 assms(6))
  have "commits (snd (view_dispatch t w2)) =
      commits w @ [(t, heap w t @ editsA argsA w @ editsB argsB w1)]"
    by (simp add: view_dispatch_def log content)
  then show ?thesis
    using chain stepA stepB log all by simp
qed

theorem chain_commits_once_witness:
  "view_ready 0 example_extensions initial_store = (Inr (), example_store) \<and>
   map_of (contributed_commands example_extensions) ''toggleBold'' = Some toggleBold \<and>
   map_of (contributed_commands example_extensions) ''insertText'' = Some insertText \<and>
   mutates_in_place toggleBold (\<lambda>unused w. [''toggleBold'']) \<and>
   mutates_in_place insertText (\<lambda>text w. [text]) \<and>
   (\<exists>chain. chain_key example_store = Some chain \<and>
      commits (snd (chain_a_b_run chain ''toggleBold'' [] ''insertText'' ''hi'' world0)) =
        [(0, [''toggleBold'', ''hi''])])"
  using chain_commits_once
      [OF example_build example_lookup toggleBold_in_place insertText_in_place refl refl refl,
       of "[]" world0 "''hi''"]
    example_build example_lookup toggleBold_in_place insertText_in_place
  by (auto simp: world0_def)



text \<open>
  Claim C10. \<open>run\<close> of the published chain reads the pending change-set from the state
  the view has when \<open>run\<close> is called: it commits that change-set with the content it has
  then, and a second call commits the next pending change-set, not the first one again.
\<close>

theorem run_reads_pending_change_set_when_called:
  assumes "view_ready fresh extensions store = (Inr (), store')"
  shows "\<exists>chain. chain_key store' = Some chain \<and>
           call_run chain w = view_dispatch (tr (view_state w)) w \<and>
           commits (snd (call_run chain w)) =
             commits w @ [(tr (view_state w), heap w (tr (view_state w)))] \<and>
           commits (snd (call_run chain (snd (call_run chain w)))) =
             commits w @ [(tr (view_state w), heap w (tr (view_state w))), (next_tr w, [])]"
proof -
  from view_ready_chain [OF assms] obtain chain where chain: "chain_key store' = Some chain"
    and run: "run chain = Some (chained_run EditorView)"
    by blast
  have eq: "call_run chain v = view_dispatch (tr (view_state v)) v" for v
    by (simp add: call_run_def run chained_run_def)
  have one: "commits (snd (view_dispatch (tr (view_state w)) w)) =
      commits w @ [(tr (view_state w), heap w (tr (view_state w)))]"
    by (simp add: view_dispatch_def)
  have two: "commits (snd (call_run chain (snd (view_dispatch (tr (view_state w)) w)))) =
      commits w @ [(tr (view_state w), heap w (tr (view_state w))), (next_tr w, [])]"
    by (simp add: eq view_dispatch_def)
  show ?thesis
    using chain eq [of w] one two by simp
qed

theorem run_reads_pending_change_set_when_called_witness:
  "view_ready 0 example_extensions initial_store = (Inr (), example_store) \<and>
   (\<exists>chain. chain_key example_store = Some chain \<and>
      commits (snd (call_run chain (add_edits 0 [''typed''] world0))) = [(0, [''typed''])] \<and>
      commits (snd (call_run chain (snd (call_run chain (add_edits 0 [''typed''] world0))))) =
        [(0, [''typed'']), (1, [])])"
  using run_reads_pending_change_set_when_called
      [OF example_build, of "add_edits 0 [''typed''] world0"] example_build
  by (auto simp: world0_def add_edits_def)

subsection \<open>The accessors\<close>

lemma view_ready_fails:
  "fails (fresh, extensions) \<Longrightarrow> snd (view_ready fresh extensions store) = store"
  by (auto simp: fails_def view_ready_def split: sum.splits)

lemma view_ready_replaces:
  "\<not> fails (fresh, extensions) \<Longrightarrow>
     view_ready fresh extensions store = (Inr (), snd (view_ready fresh extensions initial_store))"
  by (auto simp: fails_def view_ready_def afterExtensionLoop_def initial_store_def
      split: sum.splits)

lemma view_ready_phases_fail:
  "\<forall>p \<in> set ps. fails p \<Longrightarrow> view_ready_phases ps store = store"
  by (induction ps arbitrary: store) (auto simp: view_ready_fails)

lemma view_ready_phases_append:
  "view_ready_phases (ps @ qs) store = view_ready_phases qs (view_ready_phases ps store)"
  by (induction ps arbitrary: store) auto

lemma getCommands_eq:
  "getCommands store = (case commands_key store of None \<Rightarrow> Inl outer_scope_error | Some c \<Rightarrow> Inr c)"
  by (simp add: getCommands_def invariant_def outer_scope_error_def split: option.splits)

lemma getChain_eq:
  "getChain store = (case chain_key store of None \<Rightarrow> Inl outer_scope_error | Some c \<Rightarrow> Inr c)"
  by (simp add: getChain_def invariant_def outer_scope_error_def split: option.splits)

lemma fails_iff:
  fixes extensions :: "'a Extension list"
  shows "fails (fresh, extensions) \<longleftrightarrow>
     \<not> (distinct (contributed_names extensions) \<and>
        set (contributed_names extensions) \<inter> forbiddenNames = {})"
proof -
  have "fails (fresh, extensions) \<longleftrightarrow> \<not> (\<exists>s. visit_extensions extensions (onView fresh) = Inr s)"
    by (cases "visit_extensions extensions (onView fresh)") (simp_all add: fails_def view_ready_def)
  also have "\<dots> \<longleftrightarrow> \<not> (distinct (contributed_names extensions) \<and>
      set (contributed_names extensions) \<inter>
        (names (onView fresh :: 'a Scope) \<union> forbiddenNames) = {})"
    by (simp add: visit_extensions_ok_iff)
  finally show ?thesis
    by (simp add: onView_def)
qed

lemma example_phase_ok: "\<not> fails (1, example_extensions)"
  by (simp add: fails_iff example_extensions_def forbiddenNames_def)

lemma duplicate_phase_fails: "fails (n, duplicate_extensions)"
  by (simp add: fails_iff duplicate_extensions_def)

text \<open>
  Claim C7. \<open>onCreate\<close> publishes \<open>getCommands\<close> and \<open>getChain\<close>. As long as no
  view-ready phase has published a registry, both fail with the code
  \<open>COMMANDS_CALLED_IN_OUTER_SCOPE\<close>. After a phase that succeeded, whatever phases came
  before it and however many failed ones came after it, they return the \<open>commands\<close> and the
  \<open>chain\<close> that this phase published.
\<close>

theorem accessors_outer_scope_then_latest:
  shows "getCommands_entry (onCreate extensionStore) = Some getCommands \<and>
         getChain_entry (onCreate extensionStore) = Some getChain \<and>
         ((\<forall>p \<in> set ps. fails p) \<longrightarrow>
            getCommands (view_ready_phases ps initial_store) = Inl outer_scope_error \<and>
            getChain (view_ready_phases ps initial_store) = Inl outer_scope_error) \<and>
         (\<not> fails (fresh, extensions) \<and> (\<forall>p \<in> set later. fails p) \<longrightarrow>
            (\<exists>cs ch. view_ready fresh extensions initial_store =
                 (Inr (), \<lparr>commands_key = Some cs, chain_key = Some ch\<rparr>) \<and>
               getCommands (view_ready_phases (earlier @ [(fresh, extensions)] @ later) initial_store) = Inr cs \<and>
               getChain (view_ready_phases (earlier @ [(fresh, extensions)] @ later) initial_store) = Inr ch))"
proof (intro conjI impI)
  show "getCommands_entry (onCreate extensionStore) = Some getCommands"
    and "getChain_entry (onCreate extensionStore) = Some getChain"
    by (simp_all add: onCreate_def)
next
  assume "\<forall>p \<in> set ps. fails p"
  then have "view_ready_phases ps initial_store = initial_store"
    by (rule view_ready_phases_fail)
  then show "getCommands (view_ready_phases ps initial_store) = Inl outer_scope_error"
    and "getChain (view_ready_phases ps initial_store) = Inl outer_scope_error"
    by (simp_all add: getCommands_eq getChain_eq initial_store_def)
next
  assume a: "\<not> fails (fresh, extensions) \<and> (\<forall>p \<in> set later. fails p)"
  then obtain s where s: "visit_extensions extensions (onView fresh) = Inr s"
    by (auto simp: fails_def view_ready_def split: sum.splits)
  let ?cs = "fold attach (unchained s) (commands s)"
  let ?ch = "(chained s)\<lparr>run := Some (chained_run EditorView)\<rparr>"
  have first: "view_ready fresh extensions initial_store =
      (Inr (), \<lparr>commands_key = Some ?cs, chain_key = Some ?ch\<rparr>)"
    using s by (simp add: view_ready_def afterExtensionLoop_def initial_store_def)
  have "view_ready_phases (earlier @ [(fresh, extensions)] @ later) initial_store =
      snd (view_ready fresh extensions (view_ready_phases earlier initial_store))"
    using a by (simp add: view_ready_phases_append view_ready_phases_fail)
  also have "\<dots> = \<lparr>commands_key = Some ?cs, chain_key = Some ?ch\<rparr>"
    using a view_ready_replaces [of fresh extensions "view_ready_phases earlier initial_store"]
    by (simp add: first)
  finally have "view_ready_phases (earlier @ [(fresh, extensions)] @ later) initial_store =
      \<lparr>commands_key = Some ?cs, chain_key = Some ?ch\<rparr>" .
  then have "getCommands (view_ready_phases (earlier @ [(fresh, extensions)] @ later) initial_store) = Inr ?cs"
    and "getChain (view_ready_phases (earlier @ [(fresh, extensions)] @ later) initial_store) = Inr ?ch"
    by (simp_all add: getCommands_eq getChain_eq)
  with first show "\<exists>cs ch. view_ready fresh extensions initial_store =
        (Inr (), \<lparr>commands_key = Some cs, chain_key = Some ch\<rparr>) \<and>
      getCommands (view_ready_phases (earlier @ [(fresh, extensions)] @ later) initial_store) = Inr cs \<and>
      getChain (view_ready_phases (earlier @ [(fresh, extensions)] @ later) initial_store) = Inr ch"
    by blast
qed

theorem accessors_outer_scope_then_latest_witness:
  "getCommands_entry (onCreate empty_extension_store) = Some getCommands \<and>
   getChain_entry (onCreate empty_extension_store) = Some getChain \<and>
   fails (0, duplicate_extensions) \<and>
   getCommands (view_ready_phases [(0, duplicate_extensions)] initial_store) = Inl outer_scope_error \<and>
   getChain (view_ready_phases [(0, duplicate_extensions)] initial_store) = Inl outer_scope_error \<and>
   \<not> fails (1, example_extensions) \<and> fails (2, duplicate_extensions) \<and>
   (\<exists>cs ch. view_ready 1 example_extensions initial_store =
        (Inr (), \<lparr>commands_key = Some cs, chain_key = Some ch\<rparr>) \<and>
      getCommands (view_ready_phases
        ([(0, [text_extension])] @ [(1, example_extensions)] @ [(2, duplicate_extensions)])
        initial_store) = Inr cs \<and>
      getChain (view_ready_phases
        ([(0, [text_extension])] @ [(1, example_extensions)] @ [(2, duplicate_extensions)])
        initial_store) = Inr ch \<and> self ch = 1)"
proof -
  have f: "\<forall>p \<in> set [(n, duplicate_extensions)]. fails p" for n
    by (simp add: duplicate_phase_fails)
  from accessors_outer_scope_then_latest
      [of empty_extension_store "[(0, duplicate_extensions)]" 1 example_extensions
          "[(2, duplicate_extensions)]" "[(0, [text_extension])]"]
  have before: "getCommands_entry (onCreate empty_extension_store) = Some getCommands"
      "getChain_entry (onCreate empty_extension_store) = Some getChain"
      "getCommands (view_ready_phases [(0, duplicate_extensions)] initial_store) = Inl outer_scope_error"
      "getChain (view_ready_phases [(0, duplicate_extensions)] initial_store) = Inl outer_scope_error"
    and "\<exists>cs ch. view_ready 1 example_extensions initial_store =
        (Inr (), \<lparr>commands_key = Some cs, chain_key = Some ch\<rparr>) \<and>
      getCommands (view_ready_phases
        ([(0, [text_extension])] @ [(1, example_extensions)] @ [(2, duplicate_extensions)])
        initial_store) = Inr cs \<and>
      getChain (view_ready_phases
        ([(0, [text_extension])] @ [(1, example_extensions)] @ [(2, duplicate_extensions)])
        initial_store) = Inr ch"
    using f example_phase_ok by blast+
  then obtain cs ch where b: "view_ready 1 example_extensions initial_store =
        (Inr (), \<lparr>commands_key = Some cs, chain_key = Some ch\<rparr>)"
    and g: "getCommands (view_ready_phases
        ([(0, [text_extension])] @ [(1, example_extensions)] @ [(2, duplicate_extensions)])
        initial_store) = Inr cs"
      "getChain (view_ready_phases
        ([(0, [text_extension])] @ [(1, example_extensions)] @ [(2, duplicate_extensions)])
        initial_store) = Inr ch"
    by blast
  from view_ready_chain [OF b] have "self ch = 1" by simp
  with before b g duplicate_phase_fails example_phase_ok show ?thesis by blast
qed

subsection \<open>The built-in command\<close>

text \<open>
  Claim C8. \<open>customTransaction(updater)\<close> never returns false, and returns true in each
  of the contexts the registry makes for it. When the context has a commit operation, the
  updater runs first, on the pending change-set of the state, and then that same
  change-set is passed to the commit operation: what the view commits is the change-set as
  the updater left it.
\<close>

theorem customTransaction_updates_then_commits:
  "fst (customTransaction transactionUpdater ctx w) \<noteq> Inr False \<and>
   customTransaction transactionUpdater \<lparr>state = s, dispatch = Some dispatch', view = v\<rparr> w =
     (case dispatch' (tr s) (transactionUpdater (tr s) w) of
        (Inl e, w') \<Rightarrow> (Inl e, w')
      | (Inr u, w') \<Rightarrow> (Inr True, w')) \<and>
   customTransaction transactionUpdater \<lparr>state = s, dispatch = Some view_dispatch, view = v\<rparr> w =
     (Inr True, snd (view_dispatch (tr s) (transactionUpdater (tr s) w))) \<and>
   commits (snd (customTransaction transactionUpdater
       \<lparr>state = s, dispatch = Some view_dispatch, view = v\<rparr> w)) =
     commits (transactionUpdater (tr s) w) @ [(tr s, heap (transactionUpdater (tr s) w) (tr s))] \<and>
   customTransaction transactionUpdater
       \<lparr>state = s, dispatch = Some (chained_dispatch s), view = v\<rparr> w =
     (Inr True, transactionUpdater (tr s) w) \<and>
   customTransaction transactionUpdater \<lparr>state = s, dispatch = None, view = v\<rparr> w = (Inr True, w)"
proof (intro conjI)
  show "fst (customTransaction transactionUpdater ctx w) \<noteq> Inr False"
    by (simp add: customTransaction_def split: option.splits prod.splits sum.splits)
  show "customTransaction transactionUpdater \<lparr>state = s, dispatch = Some dispatch', view = v\<rparr> w =
     (case dispatch' (tr s) (transactionUpdater (tr s) w) of
        (Inl e, w') \<Rightarrow> (Inl e, w')
      | (Inr u, w') \<Rightarrow> (Inr True, w'))"
    by (simp add: customTransaction_def)
  show "customTransaction transactionUpdater \<lparr>state = s, dispatch = Some view_dispatch, view = v\<rparr> w =
      (Inr True, snd (view_dispatch (tr s) (transactionUpdater (tr s) w)))"
    by (simp add: customTransaction_def view_dispatch_def)
  show "commits (snd (customTransaction transactionUpdater
       \<lparr>state = s, dispatch = Some view_dispatch, view = v\<rparr> w)) =
     commits (transactionUpdater (tr s) w) @ [(tr s, heap (transactionUpdater (tr s) w) (tr s))]"
    by (simp add: customTransaction_def view_dispatch_def)
  show "customTransaction transactionUpdater
       \<lparr>state = s, dispatch = Some (chained_dispatch s), view = v\<rparr> w =
     (Inr True, transactionUpdater (tr s) w)"
    by (simp add: customTransaction_def chained_dispatch_def invariant_def)
  show "customTransaction transactionUpdater \<lparr>state = s, dispatch = None, view = v\<rparr> w =
      (Inr True, w)"
    by (simp add: customTransaction_def)
qed

text \<open>
  Claim C9. On a context without a commit operation \<open>customTransaction(updater)\<close> returns
  true and leaves the world as it was, whatever the updater would have done: the updater
  is not called. So the \<open>isEnabled\<close> probe of \<open>customTransaction\<close> is constantly true.
\<close>

theorem customTransaction_without_dispatch:
  assumes "dispatch ctx = None"
  shows "customTransaction transactionUpdater ctx w = (Inr True, w) \<and>
         unchainedFactory customTransaction (Some False) transactionUpdater w = (Inr True, w)"
  using assms by (simp add: customTransaction_def unchainedFactory_def)

theorem customTransaction_without_dispatch_witness:
  "dispatch \<lparr>state = view_state world0, dispatch = None, view = EditorView\<rparr> = None \<and>
   appendCustom 0 world0 \<noteq> world0 \<and>
   customTransaction appendCustom
     \<lparr>state = view_state world0, dispatch = None, view = EditorView\<rparr> world0 = (Inr True, world0) \<and>
   unchainedFactory customTransaction (Some False) appendCustom world0 = (Inr True, world0)"
proof -
  have "heap (appendCustom 0 world0) 0 \<noteq> heap world0 0"
    by (simp add: appendCustom_def add_edits_def world0_def)
  then have "appendCustom 0 world0 \<noteq> world0"
    by auto
  then show ?thesis
    using customTransaction_without_dispatch
      [of "\<lparr>state = view_state world0, dispatch = None, view = EditorView\<rparr>" appendCustom world0]
    by simp
qed

end
